theory Spec2Isabelle
  imports Main "HOL-Library.Word"
begin

section \<open>Values, transport calls and promises\<close>

text \<open>
  The client of \<^verbatim>\<open>src/index.js\<close> is event driven: every function registers callbacks on
  the ssh2 transport and returns a promise. The transport itself is not part of the
  repository, so it is the environment of the model. A run is a list of events that the
  environment delivers, one per turn of the JavaScript event loop; the code is the
  deterministic function that handles them and records, in order, every call it makes on
  the transport and every change of its promises.
\<close>

type_synonym byte = "8 word"
type_synonym buffer = "byte list"
type_synonym handle = nat

text \<open>A JavaScript \<^verbatim>\<open>Error\<close> object, identified by its message.\<close>

datatype error = Error string

text \<open>The calls that the code makes on the connection and on the SFTP sub-channel.\<close>

datatype effect =
    ConnConnect
  | ConnEnd
  | ConnDestroy
  | ConnSftp
  | ConnExec string
  | SftpOpen string string
  | SftpFstat handle
  | SftpRead handle nat int nat
  | SftpWrite handle buffer nat nat nat
  | SftpClose handle
  | SftpStat string
  | SftpCreateReadStream string nat nat
  | SftpCreateWriteStream string
  | StreamPipeTo
  | StreamPipeFrom
  | StreamClose

text \<open>An invocation of the \<^verbatim>\<open>resolve\<close> or of the \<^verbatim>\<open>reject\<close> function of a promise.\<close>

datatype 'v call = Resolve 'v | Reject error

text \<open>
  What a callback of an operation body does while it runs: calls on the transport and
  invocations of \<^verbatim>\<open>resolve\<close> / \<^verbatim>\<open>reject\<close>, in program order.
\<close>

datatype 'v act = Do effect | Inv "'v call"

text \<open>The lifecycle signals \<^verbatim>\<open>'ready'\<close>, \<^verbatim>\<open>'end'\<close> and \<^verbatim>\<open>'error'\<close> of a connection.\<close>

datatype signal = Ready | Ended | Failed error

text \<open>
  One turn of the event loop: the connection emits a signal, or the transport calls back
  into the operation body, which then performs the given acts.
\<close>

datatype 'v event = Sig signal | Callback "'v act list"

text \<open>
  The observable trace of a call of \<^verbatim>\<open>cmd\<close>: transport calls made by \<^verbatim>\<open>cmd\<close> itself
  (\<open>Core\<close>) and by the operation body (\<open>Body\<close>), every invocation of \<^verbatim>\<open>resolve\<close> /
  \<^verbatim>\<open>reject\<close>, the settlement of the promise built by \<^verbatim>\<open>new Promise\<close> (\<open>InnerSettled\<close>)
  and the settlement of the promise that \<^verbatim>\<open>cmd\<close> returns, the one derived by
  \<^verbatim>\<open>.then(resolved, rejected)\<close> (\<open>OuterSettled\<close>).
\<close>

datatype 'v obs =
    Core effect
  | Body effect
  | Invoked "'v call"
  | InnerSettled "'v call"
  | OuterSettled "'v call"

record 'v run =
  started :: bool
  promise :: "'v call option"
  outer :: "'v call option"
  trace :: "'v obs list"

section \<open>The command runner \<^verbatim>\<open>cmd\<close>\<close>

text \<open>
  \<^verbatim>\<open>handleConn\<close> (lines 43 to 48). \<open>session\<close> is true when the caller supplied a
  connection (\<^verbatim>\<open>session = session || false\<close>).
\<close>

definition handleConn :: "bool \<Rightarrow> bool \<Rightarrow> bool \<Rightarrow> effect list" where
  "handleConn session persist failed =
     (if \<not> session \<and> (\<not> persist \<or> failed) then [ConnEnd, ConnDestroy] else [])"

text \<open>
  The two handlers given to \<^verbatim>\<open>.then\<close> (lines 51 to 60): the transport calls they make
  and the settlement of the promise that \<^verbatim>\<open>cmd\<close> returns.
\<close>

definition rejected :: "bool \<Rightarrow> bool \<Rightarrow> error \<Rightarrow> effect list \<times> 'v call" where
  "rejected session persist err = (handleConn session persist True, Reject err)"

definition resolved :: "bool \<Rightarrow> bool \<Rightarrow> 'v \<Rightarrow> effect list \<times> 'v call" where
  "resolved session persist val = (handleConn session persist False, Resolve val)"

text \<open>
  Invoking \<^verbatim>\<open>resolve\<close> or \<^verbatim>\<open>reject\<close>: the invocation always happens, the promise takes
  the outcome only while it is pending.
\<close>

definition invoke :: "'v call \<Rightarrow> 'v run \<Rightarrow> 'v run" where
  "invoke c st =
     (case promise st of
        None \<Rightarrow> st\<lparr>promise := Some c, trace := trace st @ [Invoked c, InnerSettled c]\<rparr>
      | Some d \<Rightarrow> st\<lparr>trace := trace st @ [Invoked c]\<rparr>)"

fun perform :: "'v act \<Rightarrow> 'v run \<Rightarrow> 'v run" where
  "perform (Do e) st = st\<lparr>trace := trace st @ [Body e]\<rparr>"
| "perform (Inv c) st = invoke c st"

fun run_callback :: "'v act list \<Rightarrow> 'v run \<Rightarrow> 'v run" where
  "run_callback [] st = st"
| "run_callback (a # as) st = run_callback as (perform a st)"

text \<open>
  The reactions of \<^verbatim>\<open>.then(resolved, rejected)\<close> are microtasks: they run when the
  current callback has returned and before the next event is delivered.
\<close>

definition flush :: "bool \<Rightarrow> bool \<Rightarrow> 'v run \<Rightarrow> 'v run" where
  "flush session persist st =
     (case (promise st, outer st) of
        (Some c, None) \<Rightarrow>
          (let (effs, out) =
                 (case c of
                    Resolve val \<Rightarrow> resolved session persist val
                  | Reject err \<Rightarrow> rejected session persist err)
           in st\<lparr>outer := Some out,
                 trace := trace st @ map Core effs @ [OuterSettled out]\<rparr>)
      | _ \<Rightarrow> st)"

text \<open>
  The executor of \<^verbatim>\<open>new Promise\<close> (lines 62 to 76). \<open>cmdCB\<close> is what the operation body
  does synchronously when it is called. With a session the body runs at once; without
  one the three listeners are registered and \<^verbatim>\<open>conn.connect\<close> is called, which is assumed
  not to throw.
\<close>

definition executor :: "'v act list \<Rightarrow> bool \<Rightarrow> bool \<Rightarrow> 'v run" where
  "executor cmdCB session persist =
     flush session persist
       (if session
        then run_callback cmdCB \<lparr>started = True, promise = None, outer = None, trace = []\<rparr>
        else \<lparr>started = False, promise = None, outer = None, trace = [Core ConnConnect]\<rparr>)"

text \<open>
  The listeners (lines 66 to 74) exist only when \<^verbatim>\<open>cmd\<close> created the connection. A
  callback into the operation body can only arrive once the body has been called.
\<close>

fun on_signal :: "'v act list \<Rightarrow> signal \<Rightarrow> 'v run \<Rightarrow> 'v run" where
  "on_signal cmdCB Ready st = run_callback cmdCB (st\<lparr>started := True\<rparr>)"
| "on_signal cmdCB Ended st = invoke (Reject (Error ''Connection closed'')) st"
| "on_signal cmdCB (Failed err) st = invoke (Reject err) st"

fun deliver :: "'v act list \<Rightarrow> bool \<Rightarrow> 'v event \<Rightarrow> 'v run \<Rightarrow> 'v run" where
  "deliver cmdCB session (Sig s) st = (if session then st else on_signal cmdCB s st)"
| "deliver cmdCB session (Callback acts) st =
     (if started st then run_callback acts st else st)"

definition step :: "'v act list \<Rightarrow> bool \<Rightarrow> bool \<Rightarrow> 'v run \<Rightarrow> 'v event \<Rightarrow> 'v run" where
  "step cmdCB session persist st ev = flush session persist (deliver cmdCB session ev st)"

definition cmd :: "'v act list \<Rightarrow> bool \<Rightarrow> bool \<Rightarrow> 'v event list \<Rightarrow> 'v run" where
  "cmd cmdCB session persist evs =
     foldl (step cmdCB session persist) (executor cmdCB session persist) evs"

subsection \<open>Projections of a trace\<close>

fun invocations :: "'v obs list \<Rightarrow> 'v call list" where
  "invocations [] = []"
| "invocations (Invoked c # os) = c # invocations os"
| "invocations (_ # os) = invocations os"

text \<open>The closing calls of \<^verbatim>\<open>cmd\<close> itself and the two settlements, in trace order.\<close>

fun is_lifecycle :: "'v obs \<Rightarrow> bool" where
  "is_lifecycle (Core ConnEnd) = True"
| "is_lifecycle (Core ConnDestroy) = True"
| "is_lifecycle (InnerSettled _) = True"
| "is_lifecycle (OuterSettled _) = True"
| "is_lifecycle _ = False"

definition lifecycle :: "'v obs list \<Rightarrow> 'v obs list" where
  "lifecycle os = filter is_lifecycle os"

fun is_reject :: "'v call \<Rightarrow> bool" where
  "is_reject (Reject _) = True"
| "is_reject (Resolve _) = False"

text \<open>The outcome decided by a sequence of invocations: the first one, if any.\<close>

fun first_call :: "'v call list \<Rightarrow> 'v call option" where
  "first_call [] = None"
| "first_call (c # _) = Some c"

text \<open>The settlements of the two promises, in trace order.\<close>

fun inner_settlements :: "'v obs list \<Rightarrow> 'v call list" where
  "inner_settlements [] = []"
| "inner_settlements (InnerSettled c # os) = c # inner_settlements os"
| "inner_settlements (_ # os) = inner_settlements os"

fun outer_settlements :: "'v obs list \<Rightarrow> 'v call list" where
  "outer_settlements [] = []"
| "outer_settlements (OuterSettled c # os) = c # outer_settlements os"
| "outer_settlements (_ # os) = outer_settlements os"

text \<open>The invocations of \<^verbatim>\<open>resolve\<close> / \<^verbatim>\<open>reject\<close> among the acts of a callback.\<close>

fun calls_of :: "'v act list \<Rightarrow> 'v call list" where
  "calls_of [] = []"
| "calls_of (Inv c # as) = c # calls_of as"
| "calls_of (Do _ # as) = calls_of as"

text \<open>
  What was done on behalf of the operation in a run, read off the trace: the transport
  calls of the body and every invocation of \<^verbatim>\<open>resolve\<close> / \<^verbatim>\<open>reject\<close>, in order.
\<close>

fun body_acts :: "'v obs list \<Rightarrow> 'v act list" where
  "body_acts [] = []"
| "body_acts (Body e # os) = Do e # body_acts os"
| "body_acts (Invoked c # os) = Inv c # body_acts os"
| "body_acts (_ # os) = body_acts os"

text \<open>The invocations that the listeners of \<^verbatim>\<open>cmd\<close> make for one event.\<close>

fun signal_calls :: "'v act list \<Rightarrow> signal \<Rightarrow> 'v call list" where
  "signal_calls cmdCB Ready = calls_of cmdCB"
| "signal_calls cmdCB Ended = [Reject (Error ''Connection closed'')]"
| "signal_calls cmdCB (Failed err) = [Reject err]"

fun event_calls :: "'v act list \<Rightarrow> bool \<Rightarrow> bool \<Rightarrow> 'v event \<Rightarrow> 'v call list" where
  "event_calls cmdCB session st_started (Sig s) = (if session then [] else signal_calls cmdCB s)"
| "event_calls cmdCB session st_started (Callback acts) =
     (if st_started then calls_of acts else [])"

subsection \<open>Proof vocabulary for runs of \<^verbatim>\<open>cmd\<close>\<close>

text \<open>
  \<open>extends calls st st'\<close>: the state \<open>st'\<close> is \<open>st\<close> after one callback that invoked
  \<open>calls\<close>. \<open>settled_ok\<close> is the invariant that holds between two events.
\<close>

definition extends :: "'v call list \<Rightarrow> 'v run \<Rightarrow> 'v run \<Rightarrow> bool" where
  "extends calls st st' \<longleftrightarrow>
     outer st' = outer st \<and>
     invocations (trace st') = invocations (trace st) @ calls \<and>
     promise st' = (case promise st of None \<Rightarrow> first_call calls | Some d \<Rightarrow> Some d) \<and>
     lifecycle (trace st') =
       lifecycle (trace st) @
       (case promise st of
          None \<Rightarrow> (case first_call calls of None \<Rightarrow> [] | Some c \<Rightarrow> [InnerSettled c])
        | Some d \<Rightarrow> [])"

definition settled_ok :: "bool \<Rightarrow> bool \<Rightarrow> 'v run \<Rightarrow> bool" where
  "settled_ok session persist st \<longleftrightarrow>
     outer st = promise st \<and>
     first_call (invocations (trace st)) = promise st \<and>
     lifecycle (trace st) =
       (case promise st of
          None \<Rightarrow> []
        | Some c \<Rightarrow>
            InnerSettled c # map Core (handleConn session persist (is_reject c)) @ [OuterSettled c])"

section \<open>The operations built on \<^verbatim>\<open>cmd\<close>\<close>

text \<open>
  The outcome of a callback of the form \<^verbatim>\<open>function (err, value)\<close> that the code hands to
  the transport: the transport never calls it (\<open>Silent\<close>), calls it with an error, or
  calls it with a value.
\<close>

datatype 'a cb = Silent | Err error | Ok 'a

text \<open>The events of a stream object on which the code registers listeners.\<close>

datatype stream_event = SEnd | SError error | SClose | SReadable | SOpen | SFinish

text \<open>A stream object returned by the sub-channel, identified by its remote path.\<close>

datatype stream_ref = ReadStream string | WriteStream string

text \<open>
  What the transport passes to the callback of \<^verbatim>\<open>sftp.read\<close>,
  \<^verbatim>\<open>function (err, readBytes, offsetBuffer, position)\<close>, when the read succeeds: the number
  of bytes it reports, the bytes it has stored in the caller's buffer, and the position it
  reports. Nothing in the source makes the reported position that of the call.
\<close>

record read_reply =
  readBytes :: nat
  stored :: buffer
  reported :: nat

text \<open>
  What the transport does during one operation: the outcome of each callback the
  operation hands over. The answer to the \<open>k\<close>-th \<^verbatim>\<open>sftp.read\<close> may depend on the
  arguments of that call (offset in the buffer, length, position in the file); a list
  that is used up means that no further callback arrives. \<open>exec_cb\<close> is the outcome of
  the callback given to \<^verbatim>\<open>conn.exec\<close>; when the command started it holds the exit codes
  that the command stream then reports (\<open>None\<close> for \<^verbatim>\<open>null\<close>). \<open>create_throws\<close> is the
  error thrown by \<^verbatim>\<open>createReadStream\<close> / \<^verbatim>\<open>createWriteStream\<close>, if any.
\<close>

record transport =
  sftp_cb :: "unit cb"
  open_cb :: "handle cb"
  fstat_cb :: "nat cb"
  read_cbs :: "(nat \<Rightarrow> int \<Rightarrow> nat \<Rightarrow> read_reply cb) list"
  write_cb :: "unit cb"
  close_cb :: "unit cb"
  stat_cb :: "nat cb"
  create_throws :: "error option"
  stream_events :: "stream_event list"
  exec_cb :: "int option list cb"

text \<open>A transport that never calls back.\<close>

definition silent :: transport where
  "silent =
     \<lparr>sftp_cb = Silent, open_cb = Silent, fstat_cb = Silent, read_cbs = [], write_cb = Silent,
      close_cb = Silent, stat_cb = Silent, create_throws = None, stream_events = [],
      exec_cb = Silent\<rparr>"

text \<open>
  \<^verbatim>\<open>sftpCmd\<close> (lines 87 to 92): the wrapper calls \<^verbatim>\<open>conn.sftp\<close> with the callback compiled
  by the operation; \<open>callbacks\<close> are the runs of that callback and of the ones nested in
  it, in the order in which the transport fires them, and \<open>sigs\<close> are the lifecycle signals
  that the connection emits before them.
\<close>

definition sftpCmd :: "'v act list list \<Rightarrow> bool \<Rightarrow> bool \<Rightarrow> signal list \<Rightarrow> 'v run" where
  "sftpCmd callbacks session persist sigs =
     cmd [Do ConnSftp] session persist (map Sig sigs @ map Callback callbacks)"

subsection \<open>\<^verbatim>\<open>execCmd\<close>\<close>

text \<open>The listener for \<^verbatim>\<open>'exit'\<close> (lines 106 to 112); \<^verbatim>\<open>exitCode !== 0\<close> holds for \<^verbatim>\<open>null\<close>.\<close>

definition on_exit :: "int option \<Rightarrow> bool act list" where
  "on_exit exitCode =
     (if exitCode \<noteq> Some 0
      then [Inv (Reject (Error ''none zero exit code''))]
      else [Inv (Resolve True)])"

text \<open>The callback given to \<^verbatim>\<open>conn.exec\<close> (lines 102 to 114) and the listener runs after it.\<close>

definition execCmd_callbacks :: "int option list cb \<Rightarrow> bool act list list" where
  "execCmd_callbacks r =
     (case r of
        Silent \<Rightarrow> []
      | Err err \<Rightarrow> [[Inv (Reject err)]]
      | Ok exits \<Rightarrow> [] # map on_exit exits)"

definition execCmd :: "string \<Rightarrow> bool \<Rightarrow> bool \<Rightarrow> signal list \<Rightarrow> transport \<Rightarrow> bool run" where
  "execCmd command session persist sigs tr =
     cmd [Do (ConnExec command)] session persist
       (map Sig sigs @ map Callback (execCmd_callbacks (exec_cb tr)))"

subsection \<open>\<^verbatim>\<open>getBuffer\<close>\<close>

text \<open>
  The transport stores the bytes it has read in the caller's buffer, from the given
  offset on. A \<^verbatim>\<open>Buffer\<close> has a fixed length: bytes that would fall outside are dropped.
\<close>

definition buf_write :: "buffer \<Rightarrow> nat \<Rightarrow> buffer \<Rightarrow> buffer" where
  "buf_write buffer offset data =
     take (length buffer) (take offset buffer @ data @ drop (offset + length data) buffer)"

text \<open>The callback given to \<^verbatim>\<open>sftp.close\<close> (lines 236 to 239).\<close>

definition on_close :: "buffer \<Rightarrow> unit cb \<Rightarrow> buffer act list list" where
  "on_close buffer r =
     (case r of
        Silent \<Rightarrow> []
      | Err err \<Rightarrow> [[Inv (Reject err)]]
      | Ok _ \<Rightarrow> [[Inv (Resolve buffer)]])"

text \<open>
  The callback \<^verbatim>\<open>cb\<close> (lines 231 to 243) and everything that follows it. The arguments
  \<open>position\<close> and \<open>bytes\<close> are those of the read that is outstanding: its buffer offset
  and its file position are both \<open>position\<close>, its length is \<open>bytes\<close>; the transport stores
  what it read at that buffer offset. Inside the callback \<^verbatim>\<open>position\<close> is the fourth
  parameter, the position that the transport reports, and \<^verbatim>\<open>bytes\<close> is the variable of
  the enclosing function: the next read starts at the reported position plus
  \<^verbatim>\<open>readBytes\<close>, for \<^verbatim>\<open>bytes - readBytes\<close> bytes.
\<close>

fun read_loop ::
  "handle \<Rightarrow> buffer \<Rightarrow> nat \<Rightarrow> int \<Rightarrow> (nat \<Rightarrow> int \<Rightarrow> nat \<Rightarrow> read_reply cb) list \<Rightarrow> unit cb \<Rightarrow>
   buffer act list list" where
  "read_loop h buffer position bytes [] cl = []"
| "read_loop h buffer position bytes (r # rs) cl =
     (case r position bytes position of
        Silent \<Rightarrow> []
      | Err err \<Rightarrow> [[Inv (Reject err)]]
      | Ok reply \<Rightarrow>
          (let buffer' = buf_write buffer position (stored reply);
               position' = reported reply + readBytes reply;
               bytes' = bytes - int (readBytes reply)
           in if bytes' < 1
              then [Do (SftpClose h)] # on_close buffer' cl
              else [Do (SftpRead h position' bytes' position')] #
                   read_loop h buffer' position' bytes' rs cl))"

text \<open>The callback given to \<^verbatim>\<open>sftp.fstat\<close> (lines 223 to 245), for a successful stat.\<close>

definition on_fstat :: "handle \<Rightarrow> nat \<Rightarrow> transport \<Rightarrow> buffer act list list" where
  "on_fstat h stat_size tr =
     (let bytes = stat_size;
          buffer = replicate bytes (0 :: byte)
      in if bytes = 0
         then [[Inv (Resolve buffer)]]
         else [Do (SftpRead h 0 (int bytes) 0)] #
              read_loop h buffer 0 (int bytes) (read_cbs tr) (close_cb tr))"

text \<open>\<^verbatim>\<open>getBufferCmd\<close> (lines 218 to 248): the callback for \<^verbatim>\<open>conn.sftp\<close> and its successors.\<close>

definition getBufferCmd :: "string \<Rightarrow> transport \<Rightarrow> buffer act list list" where
  "getBufferCmd location tr =
     (case sftp_cb tr of
        Silent \<Rightarrow> []
      | Err err \<Rightarrow> [[Inv (Reject err)]]
      | Ok _ \<Rightarrow>
          [Do (SftpOpen location ''r'')] #
          (case open_cb tr of
             Silent \<Rightarrow> []
           | Err err \<Rightarrow> [[Inv (Reject err)]]
           | Ok h \<Rightarrow>
               [Do (SftpFstat h)] #
               (case fstat_cb tr of
                  Silent \<Rightarrow> []
                | Err err \<Rightarrow> [[Inv (Reject err)]]
                | Ok stat_size \<Rightarrow> on_fstat h stat_size tr)))"

definition getBuffer :: "string \<Rightarrow> bool \<Rightarrow> signal list \<Rightarrow> transport \<Rightarrow> buffer run" where
  "getBuffer location session sigs tr = sftpCmd (getBufferCmd location tr) session False sigs"

subsection \<open>\<^verbatim>\<open>putBuffer\<close>\<close>

text \<open>\<^verbatim>\<open>putBufferCmd\<close> (lines 261 to 275).\<close>

definition putBufferCmd :: "buffer \<Rightarrow> string \<Rightarrow> transport \<Rightarrow> bool act list list" where
  "putBufferCmd buffer location tr =
     (case sftp_cb tr of
        Silent \<Rightarrow> []
      | Err err \<Rightarrow> [[Inv (Reject err)]]
      | Ok _ \<Rightarrow>
          [Do (SftpOpen location ''w'')] #
          (case open_cb tr of
             Silent \<Rightarrow> []
           | Err err \<Rightarrow> [[Inv (Reject err)]]
           | Ok h \<Rightarrow>
               [Do (SftpWrite h buffer 0 (length buffer) 0)] #
               (case write_cb tr of
                  Silent \<Rightarrow> []
                | Err err \<Rightarrow> [[Inv (Reject err)]]
                | Ok _ \<Rightarrow>
                    [Do (SftpClose h)] #
                    (case close_cb tr of
                       Silent \<Rightarrow> []
                     | Err err \<Rightarrow> [[Inv (Reject err)]]
                     | Ok _ \<Rightarrow> [[Inv (Resolve True)]]))))"

definition putBuffer :: "buffer \<Rightarrow> string \<Rightarrow> bool \<Rightarrow> signal list \<Rightarrow> transport \<Rightarrow> bool run" where
  "putBuffer buffer location session sigs tr =
     sftpCmd (putBufferCmd buffer location tr) session False sigs"



subsection \<open>Streams\<close>

text \<open>
  Lines 424 to 427 of \<^verbatim>\<open>getStream\<close>, repeated at lines 491 to 494 of
  \<^verbatim>\<open>createReadStream\<close>: the last byte position to read.
\<close>

definition end_position :: "nat \<Rightarrow> nat" where
  "end_position stat_size = (let bytes = stat_size in if bytes > 0 then bytes - 1 else bytes)"

text \<open>The listeners that \<^verbatim>\<open>getStream\<close> registers on the read stream (lines 434 to 439).\<close>

fun on_getStream_event :: "stream_event \<Rightarrow> bool act list" where
  "on_getStream_event SEnd = [Inv (Resolve True)]"
| "on_getStream_event (SError err) = [Inv (Reject err)]"
| "on_getStream_event _ = []"

text \<open>
  The callback \<^verbatim>\<open>function (err, sftp)\<close> of \<^verbatim>\<open>getStream\<close> (lines 417 to 441) and its
  successors; \<open>err\<close> is \<open>None\<close> when the sub-channel was opened.
\<close>

definition getStream_callback ::
  "string \<Rightarrow> bool \<Rightarrow> error option \<Rightarrow> transport \<Rightarrow> bool act list list" where
  "getStream_callback path writable err tr =
     (if \<not> writable
      then [[Inv (Reject (Error ''Stream must be a writable stream''))]]
      else
        (case err of
           Some e \<Rightarrow> [[Inv (Reject e)]]
         | None \<Rightarrow>
             [Do (SftpStat path)] #
             (case stat_cb tr of
                Silent \<Rightarrow> []
              | Err e \<Rightarrow> [[Inv (Reject e)]]
              | Ok stat_size \<Rightarrow>
                  (case create_throws tr of
                     Some e \<Rightarrow>
                       [[Do (SftpCreateReadStream path 0 (end_position stat_size)),
                         Inv (Reject e)]]
                   | None \<Rightarrow>
                       [Do (SftpCreateReadStream path 0 (end_position stat_size)),
                        Do StreamPipeTo] #
                       map on_getStream_event (stream_events tr)))))"

definition getStreamCmd :: "string \<Rightarrow> bool \<Rightarrow> transport \<Rightarrow> bool act list list" where
  "getStreamCmd path writable tr =
     (case sftp_cb tr of
        Silent \<Rightarrow> []
      | Err e \<Rightarrow> getStream_callback path writable (Some e) tr
      | Ok _ \<Rightarrow> getStream_callback path writable None tr)"

definition getStream :: "string \<Rightarrow> bool \<Rightarrow> bool \<Rightarrow> signal list \<Rightarrow> transport \<Rightarrow> bool run" where
  "getStream path writable session sigs tr =
     sftpCmd (getStreamCmd path writable tr) session False sigs"

text \<open>The listeners that \<^verbatim>\<open>putStream\<close> registers on the write stream (lines 465 to 473).\<close>

fun on_putStream_event :: "stream_event \<Rightarrow> bool act list" where
  "on_putStream_event SOpen = [Do StreamPipeFrom]"
| "on_putStream_event SFinish = [Inv (Resolve True)]"
| "on_putStream_event (SError err) = [Inv (Reject err)]"
| "on_putStream_event _ = []"

text \<open>The callback \<^verbatim>\<open>function (err, sftp)\<close> of \<^verbatim>\<open>putStream\<close> (lines 455 to 474).\<close>

definition putStream_callback ::
  "string \<Rightarrow> bool \<Rightarrow> error option \<Rightarrow> transport \<Rightarrow> bool act list list" where
  "putStream_callback path readable err tr =
     (if \<not> readable
      then [[Inv (Reject (Error ''Stream must be a readable stream''))]]
      else
        (case err of
           Some e \<Rightarrow> [[Inv (Reject e)]]
         | None \<Rightarrow>
             (case create_throws tr of
                Some e \<Rightarrow> [[Do (SftpCreateWriteStream path), Inv (Reject e)]]
              | None \<Rightarrow>
                  [Do (SftpCreateWriteStream path)] #
                  map on_putStream_event (stream_events tr))))"

definition putStreamCmd :: "string \<Rightarrow> bool \<Rightarrow> transport \<Rightarrow> bool act list list" where
  "putStreamCmd path readable tr =
     (case sftp_cb tr of
        Silent \<Rightarrow> []
      | Err e \<Rightarrow> putStream_callback path readable (Some e) tr
      | Ok _ \<Rightarrow> putStream_callback path readable None tr)"

definition putStream :: "string \<Rightarrow> bool \<Rightarrow> bool \<Rightarrow> signal list \<Rightarrow> transport \<Rightarrow> bool run" where
  "putStream path readable session sigs tr =
     sftpCmd (putStreamCmd path readable tr) session False sigs"

text \<open>
  The listeners of \<^verbatim>\<open>createReadStream\<close> (lines 500 to 516); \<open>session\<close> is the argument
  of the operation, tested as \<^verbatim>\<open>!session\<close>.
\<close>

fun on_readStream_event :: "string \<Rightarrow> bool \<Rightarrow> stream_event \<Rightarrow> stream_ref act list" where
  "on_readStream_event path session SClose =
     (if \<not> session then [Do ConnEnd, Do ConnDestroy] else [])"
| "on_readStream_event path session (SError err) =
     (if \<not> session then [Do ConnEnd, Do ConnDestroy] else [])"
| "on_readStream_event path session SReadable =
     [Inv (Resolve (ReadStream path)), Do StreamClose]"
| "on_readStream_event path session _ = []"

text \<open>\<^verbatim>\<open>createReadStreamCmd\<close> (lines 486 to 519).\<close>

definition createReadStreamCmd :: "string \<Rightarrow> bool \<Rightarrow> transport \<Rightarrow> stream_ref act list list" where
  "createReadStreamCmd path session tr =
     (case sftp_cb tr of
        Silent \<Rightarrow> []
      | Err e \<Rightarrow> [[Inv (Reject e)]]
      | Ok _ \<Rightarrow>
          [Do (SftpStat path)] #
          (case stat_cb tr of
             Silent \<Rightarrow> []
           | Err e \<Rightarrow> [[Inv (Reject e)]]
           | Ok stat_size \<Rightarrow>
               (case create_throws tr of
                  Some e \<Rightarrow>
                    [[Do (SftpCreateReadStream path 0 (end_position stat_size)), Inv (Reject e)]]
                | None \<Rightarrow>
                    [Do (SftpCreateReadStream path 0 (end_position stat_size))] #
                    map (on_readStream_event path session) (stream_events tr))))"

definition createReadStream :: "string \<Rightarrow> bool \<Rightarrow> signal list \<Rightarrow> transport \<Rightarrow> stream_ref run" where
  "createReadStream path session sigs tr =
     sftpCmd (createReadStreamCmd path session tr) session True sigs"

text \<open>The listeners of \<^verbatim>\<open>createWriteStream\<close> (lines 538 to 554).\<close>

fun on_writeStream_event :: "string \<Rightarrow> bool \<Rightarrow> stream_event \<Rightarrow> stream_ref act list" where
  "on_writeStream_event path session SClose =
     (if \<not> session then [Do ConnEnd, Do ConnDestroy] else [])"
| "on_writeStream_event path session (SError err) =
     (if \<not> session then [Do ConnEnd, Do ConnDestroy] else []) @ [Inv (Reject err)]"
| "on_writeStream_event path session SOpen = [Inv (Resolve (WriteStream path))]"
| "on_writeStream_event path session _ = []"

text \<open>\<^verbatim>\<open>createWriteStreamCmd\<close> (lines 530 to 556).\<close>

definition createWriteStreamCmd :: "string \<Rightarrow> bool \<Rightarrow> transport \<Rightarrow> stream_ref act list list" where
  "createWriteStreamCmd path session tr =
     (case sftp_cb tr of
        Silent \<Rightarrow> []
      | Err e \<Rightarrow> [[Inv (Reject e)]]
      | Ok _ \<Rightarrow>
          (case create_throws tr of
             Some e \<Rightarrow> [[Do (SftpCreateWriteStream path), Inv (Reject e)]]
           | None \<Rightarrow>
               [Do (SftpCreateWriteStream path)] #
               map (on_writeStream_event path session) (stream_events tr)))"

definition createWriteStream :: "string \<Rightarrow> bool \<Rightarrow> signal list \<Rightarrow> transport \<Rightarrow> stream_ref run" where
  "createWriteStream path session sigs tr =
     sftpCmd (createWriteStreamCmd path session tr) session True sigs"

text \<open>The calls that close a connection, whoever makes them.\<close>

fun closing :: "'v obs \<Rightarrow> bool" where
  "closing (Core ConnEnd) = True"
| "closing (Core ConnDestroy) = True"
| "closing (Body ConnEnd) = True"
| "closing (Body ConnDestroy) = True"
| "closing _ = False"

text \<open>The \<^verbatim>\<open>sftp.write\<close> calls among the acts of an operation body.\<close>

fun writes :: "'v act list \<Rightarrow> effect list" where
  "writes [] = []"
| "writes (Do (SftpWrite h buffer offset len position) # as) =
     SftpWrite h buffer offset len position # writes as"
| "writes (_ # as) = writes as"

subsection \<open>A remote server behind the transport\<close>










section \<open>Properties of the command runner\<close>

lemma invocations_append: "invocations (xs @ ys) = invocations xs @ invocations ys"
  by (induction xs rule: invocations.induct) simp_all

lemma lifecycle_append: "lifecycle (xs @ ys) = lifecycle xs @ lifecycle ys"
  by (simp add: lifecycle_def)

lemma first_call_append:
  "first_call (xs @ ys) = (case first_call xs of None \<Rightarrow> first_call ys | Some c \<Rightarrow> Some c)"
  by (cases xs) simp_all

lemma invoke_outer: "outer (invoke c st) = outer st"
  and invoke_started: "started (invoke c st) = started st"
  and invoke_promise:
    "promise (invoke c st) = (case promise st of None \<Rightarrow> Some c | Some d \<Rightarrow> Some d)"
  and invoke_invocations:
    "invocations (trace (invoke c st)) = invocations (trace st) @ [c]"
  and invoke_lifecycle:
    "lifecycle (trace (invoke c st)) =
       lifecycle (trace st) @ (case promise st of None \<Rightarrow> [InnerSettled c] | Some d \<Rightarrow> [])"
  by (simp_all add: invoke_def invocations_append lifecycle_def split: option.splits)

lemma run_callback_outer: "outer (run_callback acts st) = outer st"
proof (induction acts arbitrary: st)
  case Nil
  then show ?case by simp
next
  case (Cons a as)
  then show ?case by (cases a) (simp_all add: invoke_outer)
qed

lemma run_callback_started: "started (run_callback acts st) = started st"
proof (induction acts arbitrary: st)
  case Nil
  then show ?case by simp
next
  case (Cons a as)
  then show ?case by (cases a) (simp_all add: invoke_started)
qed

lemma run_callback_invocations:
  "invocations (trace (run_callback acts st)) = invocations (trace st) @ calls_of acts"
proof (induction acts arbitrary: st)
  case Nil
  then show ?case by simp
next
  case (Cons a as)
  then show ?case
    by (cases a) (simp_all add: invoke_invocations invocations_append)
qed

lemma run_callback_promise:
  "promise (run_callback acts st) =
     (case promise st of None \<Rightarrow> first_call (calls_of acts) | Some d \<Rightarrow> Some d)"
proof (induction acts arbitrary: st)
  case Nil
  then show ?case by (simp split: option.splits)
next
  case (Cons a as)
  then show ?case
    by (cases a) (simp_all add: invoke_promise split: option.splits)
qed

lemma run_callback_lifecycle:
  "lifecycle (trace (run_callback acts st)) =
     lifecycle (trace st) @
     (case promise st of
        None \<Rightarrow> (case first_call (calls_of acts) of None \<Rightarrow> [] | Some c \<Rightarrow> [InnerSettled c])
      | Some d \<Rightarrow> [])"
proof (induction acts arbitrary: st)
  case Nil
  then show ?case by (simp split: option.splits)
next
  case (Cons a as)
  then show ?case
    by (cases a) (simp_all add: invoke_def lifecycle_def split: option.splits)
qed

lemma lifecycle_Core_handleConn:
  "lifecycle (map Core (handleConn session persist failed)) =
     map Core (handleConn session persist failed)"
  by (simp add: lifecycle_def handleConn_def)

lemma invocations_Core: "invocations (map Core es) = []"
  by (induction es) simp_all

lemma flush_pending:
  assumes "promise st = None" "outer st = None"
  shows "flush session persist st = st"
  using assms by (simp add: flush_def)

lemma flush_done:
  assumes "outer st = Some d"
  shows "flush session persist st = st"
  using assms by (simp add: flush_def split: option.splits)

lemma flush_settles:
  assumes "promise st = Some c" "outer st = None"
    "first_call (invocations (trace st)) = Some c"
    "lifecycle (trace st) = [InnerSettled c]"
  shows "settled_ok session persist (flush session persist st)"
  using assms
  by (cases c)
     (simp_all add: flush_def settled_ok_def resolved_def rejected_def invocations_append
        invocations_Core first_call_append lifecycle_append lifecycle_Core_handleConn,
      simp_all add: lifecycle_def)

lemma extends_refl: "extends [] st st"
  by (simp add: extends_def split: option.splits)

lemma extends_invoke: "extends [c] st (invoke c st)"
  by (simp add: extends_def invoke_outer invoke_invocations invoke_promise invoke_lifecycle
      split: option.splits)

lemma extends_run_callback: "extends (calls_of acts) st (run_callback acts st)"
  by (simp add: extends_def run_callback_outer run_callback_invocations run_callback_promise
      run_callback_lifecycle)

lemma extends_run_callback_started:
  "extends (calls_of acts) st (run_callback acts (st\<lparr>started := True\<rparr>))"
  using extends_run_callback [of acts "st\<lparr>started := True\<rparr>"]
  by (simp add: extends_def)

lemma extends_on_signal: "extends (signal_calls cmdCB s) st (on_signal cmdCB s st)"
  by (cases s) (simp_all add: extends_invoke extends_run_callback_started)

lemma extends_deliver:
  "extends (event_calls cmdCB session (started st) ev) st (deliver cmdCB session ev st)"
  by (cases ev) (simp_all add: extends_refl extends_on_signal extends_run_callback)

lemma first_call_None: "first_call cs = None \<longleftrightarrow> cs = []"
  by (cases cs) simp_all

lemma settled_ok_after:
  assumes ok: "settled_ok session persist st" and ext: "extends calls st st'"
  shows "settled_ok session persist (flush session persist st')"
proof (cases "promise st")
  case None
  with ok have pre: "outer st = None" "invocations (trace st) = []" "lifecycle (trace st) = []"
    by (simp_all add: settled_ok_def first_call_None)
  show ?thesis
  proof (cases "first_call calls")
    case n: None
    with None pre ext have "promise st' = None" "outer st' = None"
      "invocations (trace st') = []" "lifecycle (trace st') = []"
      by (simp_all add: extends_def first_call_None)
    then show ?thesis
      by (simp add: flush_pending settled_ok_def)
  next
    case (Some c)
    with None pre ext have "promise st' = Some c" "outer st' = None"
      "first_call (invocations (trace st')) = Some c" "lifecycle (trace st') = [InnerSettled c]"
      by (simp_all add: extends_def)
    then show ?thesis
      by (rule flush_settles)
  qed
next
  case (Some c)
  with ok ext have same: "promise st' = Some c" "outer st' = Some c"
    "lifecycle (trace st') = lifecycle (trace st)"
    "first_call (invocations (trace st')) = Some c"
    by (simp_all add: settled_ok_def extends_def first_call_append)
  from same(2) have "flush session persist st' = st'"
    by (rule flush_done)
  with same Some ok show ?thesis
    by (simp add: settled_ok_def)
qed

lemma settled_ok_executor: "settled_ok session persist (executor cmdCB session persist)"
proof (cases session)
  case True
  let ?st0 = "\<lparr>started = True, promise = None, outer = None, trace = []\<rparr> :: 'a run"
  have "settled_ok session persist ?st0"
    by (simp add: settled_ok_def lifecycle_def)
  then have "settled_ok session persist (flush session persist (run_callback cmdCB ?st0))"
    using extends_run_callback by (rule settled_ok_after)
  with True show ?thesis by (simp add: executor_def)
next
  case False
  then show ?thesis
    by (simp add: executor_def flush_def settled_ok_def lifecycle_def)
qed

lemma settled_ok_step:
  "settled_ok session persist st \<Longrightarrow> settled_ok session persist (step cmdCB session persist st ev)"
  by (simp add: step_def settled_ok_after [OF _ extends_deliver])

lemma settled_ok_foldl:
  "settled_ok session persist st \<Longrightarrow>
   settled_ok session persist (foldl (step cmdCB session persist) st evs)"
  by (induction evs arbitrary: st) (simp_all add: settled_ok_step)

lemma settled_ok_cmd: "settled_ok session persist (cmd cmdCB session persist evs)"
  by (simp add: cmd_def settled_ok_foldl settled_ok_executor)

lemma lifecycle_member: "x \<in> set os \<Longrightarrow> is_lifecycle x \<Longrightarrow> x \<in> set (lifecycle os)"
  by (simp add: lifecycle_def)

lemma inner_settlements_lifecycle: "inner_settlements (lifecycle os) = inner_settlements os"
  unfolding lifecycle_def by (induction os rule: inner_settlements.induct) simp_all

lemma outer_settlements_lifecycle: "outer_settlements (lifecycle os) = outer_settlements os"
  unfolding lifecycle_def by (induction os rule: outer_settlements.induct) simp_all

lemmas cmd_eval = cmd_def executor_def step_def flush_def invoke_def resolved_def
  rejected_def handleConn_def lifecycle_def

subsection \<open>Teardown of a connection created by \<^verbatim>\<open>cmd\<close>\<close>

text \<open>
  Claim C1. For every operation run through \<^verbatim>\<open>cmd\<close> without a caller-supplied handle:
  once the promise has settled with \<open>c\<close>, the closing calls of \<^verbatim>\<open>cmd\<close> come after that
  settlement. Without persistence they are \<^verbatim>\<open>conn.end\<close> then \<^verbatim>\<open>conn.destroy\<close>, on
  success and on failure alike; with persistence they are made on failure, and on success
  \<^verbatim>\<open>cmd\<close> makes no closing call at all.
\<close>

theorem cmd_created_handle_teardown:
  assumes "promise (cmd cmdCB False persist evs) = Some c"
  shows "lifecycle (trace (cmd cmdCB False persist evs)) =
           (if persist \<and> \<not> is_reject c
            then [InnerSettled c, OuterSettled c]
            else [InnerSettled c, Core ConnEnd, Core ConnDestroy, OuterSettled c]) \<and>
         (persist \<and> \<not> is_reject c \<longrightarrow>
            Core ConnEnd \<notin> set (trace (cmd cmdCB False persist evs)) \<and>
            Core ConnDestroy \<notin> set (trace (cmd cmdCB False persist evs)))"
proof -
  let ?r = "cmd cmdCB False persist evs"
  have "settled_ok False persist ?r"
    by (rule settled_ok_cmd)
  with assms have lc: "lifecycle (trace ?r) =
      InnerSettled c # map Core (handleConn False persist (is_reject c)) @ [OuterSettled c]"
    by (simp add: settled_ok_def)
  then have first: "lifecycle (trace ?r) =
           (if persist \<and> \<not> is_reject c
            then [InnerSettled c, OuterSettled c]
            else [InnerSettled c, Core ConnEnd, Core ConnDestroy, OuterSettled c])"
    by (simp add: handleConn_def)
  have "Core ConnEnd \<notin> set (trace ?r) \<and> Core ConnDestroy \<notin> set (trace ?r)"
    if "persist \<and> \<not> is_reject c"
  proof -
    from that first have "lifecycle (trace ?r) = [InnerSettled c, OuterSettled c]"
      by simp
    then have "Core ConnEnd \<notin> set (lifecycle (trace ?r))"
      "Core ConnDestroy \<notin> set (lifecycle (trace ?r))"
      by simp_all
    then show ?thesis
      using lifecycle_member [of "Core ConnEnd" "trace ?r"]
        lifecycle_member [of "Core ConnDestroy" "trace ?r"]
      by auto
  qed
  with first show ?thesis by blast
qed

theorem cmd_created_handle_teardown_witness:
  "promise (cmd [] False False [Sig Ready, Callback [Inv (Resolve True)]]) = Some (Resolve True) \<and>
   lifecycle (trace (cmd [] False False [Sig Ready, Callback [Inv (Resolve True)]])) =
     [InnerSettled (Resolve True), Core ConnEnd, Core ConnDestroy, OuterSettled (Resolve True)] \<and>
   promise (cmd [] False True [Sig Ready, Callback [Inv (Resolve True)]]) = Some (Resolve True) \<and>
   Core ConnEnd \<notin> set (trace (cmd [] False True [Sig Ready, Callback [Inv (Resolve True)]]))"
proof -
  have h1: "promise (cmd [] False False [Sig Ready, Callback [Inv (Resolve True)]]) = Some (Resolve True)"
    by (simp add: cmd_eval)
  have h2: "promise (cmd [] False True [Sig Ready, Callback [Inv (Resolve True)]]) = Some (Resolve True)"
    by (simp add: cmd_eval)
  show ?thesis
    using h1 h2 cmd_created_handle_teardown [OF h1] cmd_created_handle_teardown [OF h2]
    by simp
qed

subsection \<open>Teardown comes before the external settlement\<close>

text \<open>
  Claim C6. For every operation run through \<^verbatim>\<open>cmd\<close>, with or without a session and
  with or without persistence: the returned promise has the outcome of the inner promise,
  value or error unchanged, and in the trace the calls decided by \<^verbatim>\<open>handleConn\<close> stand
  between the settlement of the inner promise and the settlement of the returned one.
\<close>

theorem cmd_teardown_before_settlement:
  "outer (cmd cmdCB session persist evs) = promise (cmd cmdCB session persist evs) \<and>
   lifecycle (trace (cmd cmdCB session persist evs)) =
     (case promise (cmd cmdCB session persist evs) of
        None \<Rightarrow> []
      | Some (Resolve val) \<Rightarrow>
          InnerSettled (Resolve val) # map Core (handleConn session persist False) @
          [OuterSettled (Resolve val)]
      | Some (Reject err) \<Rightarrow>
          InnerSettled (Reject err) # map Core (handleConn session persist True) @
          [OuterSettled (Reject err)])"
  using settled_ok_cmd [of session persist cmdCB evs]
  by (simp add: settled_ok_def split: option.splits call.splits)

theorem cmd_teardown_before_settlement_witness:
  "outer (cmd [] False False [Sig Ready, Sig (Failed (Error ''boom'')), Callback [Inv (Resolve True)]]) =
     Some (Reject (Error ''boom'')) \<and>
   lifecycle (trace (cmd [] False False
       [Sig Ready, Sig (Failed (Error ''boom'')), Callback [Inv (Resolve True)]])) =
     [InnerSettled (Reject (Error ''boom'')), Core ConnEnd, Core ConnDestroy,
      OuterSettled (Reject (Error ''boom''))]"
proof -
  have h: "promise (cmd [] False False
      [Sig Ready, Sig (Failed (Error ''boom'')), Callback [Inv (Resolve True)]]) =
        Some (Reject (Error ''boom''))"
    by (simp add: cmd_eval)
  show ?thesis
    using cmd_teardown_before_settlement [of "[]" False False
        "[Sig Ready, Sig (Failed (Error ''boom'')), Callback [Inv (Resolve True)]]"]
    by (simp add: h handleConn_def)
qed

subsection \<open>Settlement happens once, invocation need not\<close>

text \<open>
  Claim C4 says that exactly one of \<^verbatim>\<open>resolve\<close> / \<^verbatim>\<open>reject\<close> is invoked, exactly once,
  whatever signals fire. The listeners of lines 66 to 74 stay registered, so a run in
  which the body resolves and the connection then emits \<^verbatim>\<open>'end'\<close> invokes \<^verbatim>\<open>resolve\<close>
  and afterwards \<^verbatim>\<open>reject\<close>.
\<close>

theorem cmd_invoked_twice_counterexample:
  "invocations (trace (cmd [] False False [Sig Ready, Callback [Inv (Resolve True)], Sig Ended])) =
     [Resolve True, Reject (Error ''Connection closed'')] \<and>
   length (invocations (trace (cmd [] False False
     [Sig Ready, Callback [Inv (Resolve True)], Sig Ended]))) \<noteq> 1"
  by (simp add: cmd_eval)

text \<open>
  Claim C4, amended. For every call of \<^verbatim>\<open>cmd\<close>, however many invocations of
  \<^verbatim>\<open>resolve\<close> / \<^verbatim>\<open>reject\<close> the signals and the body cause: the inner promise and the
  returned promise take the outcome of the first invocation, each of them settles exactly
  once when there is an invocation and stays pending when there is none.
\<close>

theorem cmd_settles_by_first_invocation:
  "promise (cmd cmdCB session persist evs) =
     first_call (invocations (trace (cmd cmdCB session persist evs))) \<and>
   outer (cmd cmdCB session persist evs) =
     first_call (invocations (trace (cmd cmdCB session persist evs))) \<and>
   inner_settlements (trace (cmd cmdCB session persist evs)) =
     (case first_call (invocations (trace (cmd cmdCB session persist evs))) of
        None \<Rightarrow> [] | Some c \<Rightarrow> [c]) \<and>
   outer_settlements (trace (cmd cmdCB session persist evs)) =
     (case first_call (invocations (trace (cmd cmdCB session persist evs))) of
        None \<Rightarrow> [] | Some c \<Rightarrow> [c])"
proof -
  let ?r = "cmd cmdCB session persist evs"
  have ok: "settled_ok session persist ?r"
    by (rule settled_ok_cmd)
  have "inner_settlements (trace ?r) = inner_settlements (lifecycle (trace ?r))"
    by (simp add: inner_settlements_lifecycle)
  also have "\<dots> = (case promise ?r of None \<Rightarrow> [] | Some c \<Rightarrow> [c])"
    using ok by (simp add: settled_ok_def handleConn_def split: option.splits)
  finally have inner: "inner_settlements (trace ?r) =
      (case promise ?r of None \<Rightarrow> [] | Some c \<Rightarrow> [c])" .
  have "outer_settlements (trace ?r) = outer_settlements (lifecycle (trace ?r))"
    by (simp add: outer_settlements_lifecycle)
  also have "\<dots> = (case promise ?r of None \<Rightarrow> [] | Some c \<Rightarrow> [c])"
    using ok by (simp add: settled_ok_def handleConn_def split: option.splits)
  finally have outer: "outer_settlements (trace ?r) =
      (case promise ?r of None \<Rightarrow> [] | Some c \<Rightarrow> [c])" .
  from ok inner outer show ?thesis
    by (simp add: settled_ok_def)
qed

theorem cmd_settles_by_first_invocation_witness:
  "promise (cmd [] False False [Sig Ready, Callback [Inv (Resolve True)], Sig Ended]) =
     Some (Resolve True) \<and>
   outer_settlements (trace (cmd [] False False
       [Sig Ready, Callback [Inv (Resolve True)], Sig Ended])) = [Resolve True]"
proof -
  have h: "invocations (trace (cmd [] False False
      [Sig Ready, Callback [Inv (Resolve True)], Sig Ended])) =
        [Resolve True, Reject (Error ''Connection closed'')]"
    by (simp add: cmd_eval)
  show ?thesis
    using cmd_settles_by_first_invocation [of "[]" False False
        "[Sig Ready, Callback [Inv (Resolve True)], Sig Ended]"]
    by (simp add: h)
qed

section \<open>Properties of the operations\<close>

subsection \<open>The outcome of an operation whose connection is available\<close>

lemma flush_invocations: "invocations (trace (flush session persist st)) = invocations (trace st)"
  by (simp add: flush_def invocations_append invocations_Core resolved_def rejected_def
      split: option.splits call.splits)

lemma flush_started: "started (flush session persist st) = started st"
  by (simp add: flush_def resolved_def rejected_def split: option.splits call.splits)

lemma deliver_started: "started st \<Longrightarrow> started (deliver cmdCB session ev st)"
proof (cases ev)
  case (Sig s)
  assume "started st"
  then show ?thesis
    using Sig by (cases s) (simp_all add: run_callback_started invoke_started)
next
  case (Callback acts)
  assume "started st"
  then show ?thesis
    using Callback by (simp add: run_callback_started)
qed

lemma step_started: "started st \<Longrightarrow> started (step cmdCB session persist st ev)"
  by (simp add: step_def flush_started deliver_started)

lemma step_invocations:
  "invocations (trace (step cmdCB session persist st ev)) =
     invocations (trace st) @ event_calls cmdCB session (started st) ev"
  using extends_deliver [of cmdCB session st ev]
  by (simp add: step_def flush_invocations extends_def)

lemma calls_of_append: "calls_of (xs @ ys) = calls_of xs @ calls_of ys"
  by (induction xs rule: calls_of.induct) simp_all

lemma calls_of_concat: "concat (map calls_of cbs) = calls_of (concat cbs)"
  by (induction cbs) (simp_all add: calls_of_append)

lemma foldl_callbacks_invocations:
  "started st \<Longrightarrow>
   invocations (trace (foldl (step cmdCB session persist) st (map Callback cbs))) =
     invocations (trace st) @ calls_of (concat cbs)"
proof (induction cbs arbitrary: st)
  case Nil
  then show ?case by simp
next
  case (Cons cb cbs)
  from Cons.prems have "started (step cmdCB session persist st (Callback cb))"
    by (rule step_started)
  from Cons.IH [OF this] Cons.prems show ?case
    by (simp add: step_invocations calls_of_append)
qed

lemma foldl_session_signals:
  "started st \<Longrightarrow>
   started (foldl (step cmdCB True persist) st (map Sig sigs)) \<and>
   invocations (trace (foldl (step cmdCB True persist) st (map Sig sigs))) =
     invocations (trace st)"
proof (induction sigs arbitrary: st)
  case Nil
  then show ?case by simp
next
  case (Cons s sigs)
  from Cons.prems have "started (step cmdCB True persist st (Sig s))"
    by (rule step_started)
  from Cons.IH [OF this] show ?case
    by (simp add: step_invocations)
qed

lemma executor_session:
  "started (executor cmdCB True persist)"
  "invocations (trace (executor cmdCB True persist)) = calls_of cmdCB"
  by (simp_all add: executor_def flush_started flush_invocations run_callback_started
      run_callback_invocations)

lemma executor_fresh:
  "executor cmdCB False persist =
     \<lparr>started = False, promise = None, outer = None, trace = [Core ConnConnect]\<rparr>"
  by (simp add: executor_def flush_def)

lemma executor_ready:
  "started (step cmdCB False persist (executor cmdCB False persist) (Sig Ready))"
  "invocations (trace (step cmdCB False persist (executor cmdCB False persist) (Sig Ready))) =
     calls_of cmdCB"
  by (simp_all add: executor_fresh step_def flush_started flush_invocations run_callback_started
      run_callback_invocations)

lemma cmd_invocations:
  assumes "session \<or> sigs = [Ready]"
  shows "invocations (trace (cmd cmdCB session persist (map Sig sigs @ map Callback cbs))) =
           calls_of cmdCB @ calls_of (concat cbs)"
proof (cases session)
  case True
  let ?st = "foldl (step cmdCB True persist) (executor cmdCB True persist) (map Sig sigs)"
  from foldl_session_signals [OF executor_session(1), where cmdCB = cmdCB and persist = persist
      and sigs = sigs]
  have "started ?st" "invocations (trace ?st) = calls_of cmdCB"
    by (simp_all add: executor_session)
  with True show ?thesis
    by (simp add: cmd_def foldl_callbacks_invocations)
next
  case False
  with assms have "sigs = [Ready]" by simp
  with False show ?thesis
    by (simp add: cmd_def foldl_callbacks_invocations executor_ready)
qed

lemma cmd_outer:
  assumes "session \<or> sigs = [Ready]"
  shows "outer (cmd cmdCB session persist (map Sig sigs @ map Callback cbs)) =
           first_call (calls_of cmdCB @ calls_of (concat cbs))"
  using settled_ok_cmd [of session persist cmdCB "map Sig sigs @ map Callback cbs"]
    cmd_invocations [OF assms, of cmdCB persist cbs]
  by (simp add: settled_ok_def)

subsection \<open>\<^verbatim>\<open>execCmd\<close>\<close>

text \<open>
  Claim C5. For every command string run through \<^verbatim>\<open>execCmd\<close> on a connection that is
  available (a session, or a fresh connection that became ready): when the command starts
  and exits with status 0 the promise resolves with \<^verbatim>\<open>true\<close>; when it exits with any other
  status the promise rejects with the error \<^verbatim>\<open>none zero exit code\<close>; when it fails to
  start the promise rejects with the error reported by \<^verbatim>\<open>conn.exec\<close>.
\<close>

theorem execCmd_outcome:
  assumes "session \<or> sigs = [Ready]"
  shows "outer (execCmd command session persist sigs (tr\<lparr>exec_cb := Ok [Some 0]\<rparr>)) =
           Some (Resolve True) \<and>
         (exitCode \<noteq> Some 0 \<longrightarrow>
            outer (execCmd command session persist sigs (tr\<lparr>exec_cb := Ok [exitCode]\<rparr>)) =
              Some (Reject (Error ''none zero exit code''))) \<and>
         outer (execCmd command session persist sigs (tr\<lparr>exec_cb := Err err\<rparr>)) =
           Some (Reject err)"
  by (simp only: execCmd_def cmd_outer [OF assms])
     (simp add: execCmd_callbacks_def on_exit_def)

theorem execCmd_outcome_witness:
  "outer (execCmd ''ls'' False False [Ready] (silent\<lparr>exec_cb := Ok [Some 0]\<rparr>)) =
     Some (Resolve True) \<and>
   outer (execCmd ''ls'' False False [Ready] (silent\<lparr>exec_cb := Ok [Some 2]\<rparr>)) =
     Some (Reject (Error ''none zero exit code'')) \<and>
   outer (execCmd ''ls'' True False [] (silent\<lparr>exec_cb := Err (Error ''no channel'')\<rparr>)) =
     Some (Reject (Error ''no channel''))"
  using execCmd_outcome [of False "[Ready]" "''ls''" False silent "Some 2" "Error ''no channel''"]
    execCmd_outcome [of True "[]" "''ls''" False silent "Some 2" "Error ''no channel''"]
  by simp

subsection \<open>\<^verbatim>\<open>getBuffer\<close>: the read loop\<close>





subsection \<open>Where the transport calls in a trace come from\<close>

lemma Body_invoke: "Body e \<in> set (trace (invoke c st)) \<longleftrightarrow> Body e \<in> set (trace st)"
  by (simp add: invoke_def split: option.splits)

lemma Core_invoke: "Core e \<in> set (trace (invoke c st)) \<longleftrightarrow> Core e \<in> set (trace st)"
  by (simp add: invoke_def split: option.splits)

lemma Body_run_callback:
  "Body e \<in> set (trace (run_callback acts st)) \<Longrightarrow> Body e \<in> set (trace st) \<or> Do e \<in> set acts"
proof (induction acts arbitrary: st)
  case Nil
  then show ?case by simp
next
  case (Cons a as)
  then show ?case
    by (cases a) (fastforce simp: Body_invoke)+
qed

lemma Core_run_callback:
  "Core e \<in> set (trace (run_callback acts st)) \<longleftrightarrow> Core e \<in> set (trace st)"
proof (induction acts arbitrary: st)
  case Nil
  then show ?case by simp
next
  case (Cons a as)
  then show ?case
    by (cases a) (simp_all add: Core_invoke)
qed

lemma Body_flush: "Body e \<in> set (trace (flush session persist st)) \<longleftrightarrow> Body e \<in> set (trace st)"
  by (auto simp: flush_def resolved_def rejected_def split: option.splits call.splits)

lemma Core_flush:
  "Core e \<in> set (trace (flush session persist st)) \<Longrightarrow>
   Core e \<in> set (trace st) \<or> (\<not> session \<and> (e = ConnEnd \<or> e = ConnDestroy))"
  by (auto simp: flush_def resolved_def rejected_def handleConn_def
      split: option.splits call.splits if_splits)

lemma Body_step:
  "Body e \<in> set (trace (step cmdCB session persist st ev)) \<Longrightarrow>
   Body e \<in> set (trace st) \<or> Do e \<in> set cmdCB \<or> (\<exists>acts. ev = Callback acts \<and> Do e \<in> set acts)"
proof -
  assume "Body e \<in> set (trace (step cmdCB session persist st ev))"
  then have b: "Body e \<in> set (trace (deliver cmdCB session ev st))"
    by (simp add: step_def Body_flush)
  show ?thesis
  proof (cases ev)
    case (Sig s)
    with b show ?thesis
      by (cases s) (auto simp: Body_invoke dest: Body_run_callback split: if_splits)
  next
    case (Callback acts)
    with b show ?thesis
      by (auto dest: Body_run_callback split: if_splits)
  qed
qed

lemma Core_step:
  "Core e \<in> set (trace (step cmdCB session persist st ev)) \<Longrightarrow>
   Core e \<in> set (trace st) \<or> (\<not> session \<and> (e = ConnEnd \<or> e = ConnDestroy))"
proof -
  assume "Core e \<in> set (trace (step cmdCB session persist st ev))"
  then have c: "Core e \<in> set (trace (deliver cmdCB session ev st)) \<or>
      (\<not> session \<and> (e = ConnEnd \<or> e = ConnDestroy))"
    unfolding step_def by (rule Core_flush)
  have "Core e \<in> set (trace (deliver cmdCB session ev st)) \<longleftrightarrow> Core e \<in> set (trace st)"
  proof (cases ev)
    case (Sig s)
    then show ?thesis
      by (cases s) (simp_all add: Core_invoke Core_run_callback)
  next
    case (Callback acts)
    then show ?thesis
      by (simp add: Core_run_callback)
  qed
  with c show ?thesis by simp
qed

lemma Body_foldl:
  "Body e \<in> set (trace (foldl (step cmdCB session persist) st evs)) \<Longrightarrow>
   Body e \<in> set (trace st) \<or> Do e \<in> set cmdCB \<or>
   (\<exists>acts. Callback acts \<in> set evs \<and> Do e \<in> set acts)"
proof (induction evs arbitrary: st)
  case Nil
  then show ?case by simp
next
  case (Cons ev evs)
  from Cons.prems have "Body e \<in> set (trace (foldl (step cmdCB session persist)
      (step cmdCB session persist st ev) evs))"
    by simp
  from Cons.IH [OF this] show ?case
    by (auto dest: Body_step)
qed

lemma Core_foldl:
  "Core e \<in> set (trace (foldl (step cmdCB session persist) st evs)) \<Longrightarrow>
   Core e \<in> set (trace st) \<or> (\<not> session \<and> (e = ConnEnd \<or> e = ConnDestroy))"
proof (induction evs arbitrary: st)
  case Nil
  then show ?case by simp
next
  case (Cons ev evs)
  from Cons.prems have "Core e \<in> set (trace (foldl (step cmdCB session persist)
      (step cmdCB session persist st ev) evs))"
    by simp
  from Cons.IH [OF this] show ?case
    by (auto dest: Core_step)
qed

lemma Body_cmd:
  assumes "Body e \<in> set (trace (cmd cmdCB session persist evs))"
  shows "Do e \<in> set cmdCB \<or> (\<exists>acts. Callback acts \<in> set evs \<and> Do e \<in> set acts)"
proof -
  have "Body e \<in> set (trace (executor cmdCB session persist)) \<Longrightarrow> Do e \<in> set cmdCB"
    by (cases session) (auto simp: executor_def Body_flush dest: Body_run_callback)
  with Body_foldl [OF assms [unfolded cmd_def]] show ?thesis
    by blast
qed

lemma Core_cmd_session:
  assumes "Core e \<in> set (trace (cmd cmdCB True persist evs))"
  shows False
proof -
  have "Core e \<notin> set (trace (executor cmdCB True persist))"
  proof
    assume "Core e \<in> set (trace (executor cmdCB True persist))"
    then have "Core e \<in> set (trace (run_callback cmdCB
        \<lparr>started = True, promise = None, outer = None, trace = []\<rparr>))"
      using Core_flush [of e True persist] by (auto simp: executor_def)
    then show False
      by (simp add: Core_run_callback)
  qed
  with Core_foldl [OF assms [unfolded cmd_def]] show ?thesis
    by simp
qed

lemma Body_sftpCmd:
  assumes "Body e \<in> set (trace (sftpCmd callbacks session persist sigs))"
  shows "e = ConnSftp \<or> Do e \<in> set (concat callbacks)"
  using Body_cmd [OF assms [unfolded sftpCmd_def]] by auto

subsection \<open>A session is never closed\<close>

lemma read_loop_effects:
  "Do e \<in> set (concat (read_loop h buffer position bytes rs cl)) \<Longrightarrow>
   e = SftpClose h \<or> (\<exists>offset len pos. e = SftpRead h offset len pos)"
proof (induction rs arbitrary: buffer position bytes)
  case Nil
  then show ?case by simp
next
  case (Cons r rs)
  show ?case
  proof (cases "r position bytes position")
    case Silent
    with Cons.prems show ?thesis by simp
  next
    case (Err err)
    with Cons.prems show ?thesis by simp
  next
    case (Ok reply)
    show ?thesis
    proof (cases "bytes - int (readBytes reply) < 1")
      case True
      with Ok Cons.prems show ?thesis
        by (auto simp: Let_def on_close_def split: cb.splits)
    next
      case False
      with Ok Cons.prems have "e = SftpRead h (reported reply + readBytes reply)
            (bytes - int (readBytes reply)) (reported reply + readBytes reply) \<or>
          Do e \<in> set (concat (read_loop h (buf_write buffer position (stored reply))
            (reported reply + readBytes reply) (bytes - int (readBytes reply)) rs cl))"
        by (auto simp: Let_def)
      then show ?thesis
        using Cons.IH by blast
    qed
  qed
qed

lemma getBufferCmd_effects:
  assumes "Do e \<in> set (concat (getBufferCmd location tr))"
  shows "e = SftpOpen location ''r'' \<or> (\<exists>h. e = SftpFstat h) \<or> (\<exists>h. e = SftpClose h) \<or>
         (\<exists>h offset len pos. e = SftpRead h offset len pos)"
  using assms
  by (auto simp: getBufferCmd_def on_fstat_def Let_def simp del: set_concat
      split: cb.splits if_splits dest!: read_loop_effects)

lemma getBufferCmd_session:
  assumes "Do e \<in> set (concat (getBufferCmd location tr))"
  shows "e \<noteq> ConnEnd \<and> e \<noteq> ConnDestroy"
  using getBufferCmd_effects [OF assms] by auto

lemma putBufferCmd_effects:
  assumes "Do e \<in> set (concat (putBufferCmd buffer location tr))"
  shows "e = SftpOpen location ''w'' \<or> (\<exists>h. e = SftpClose h) \<or>
         (\<exists>h. e = SftpWrite h buffer 0 (length buffer) 0)"
  using assms
  by (auto simp: putBufferCmd_def split: cb.splits)

lemma putBufferCmd_session:
  assumes "Do e \<in> set (concat (putBufferCmd buffer location tr))"
  shows "e \<noteq> ConnEnd \<and> e \<noteq> ConnDestroy"
  using putBufferCmd_effects [OF assms] by auto

lemma on_readStream_event_session:
  "Do e \<in> set (on_readStream_event path True ev) \<Longrightarrow> e = StreamClose"
  by (cases ev) auto

lemma on_writeStream_event_session:
  "Do e \<notin> set (on_writeStream_event path True ev)"
  by (cases ev) auto

lemma on_getStream_event_effects: "Do e \<notin> set (on_getStream_event ev)"
  by (cases ev) auto

lemma on_putStream_event_effects: "Do e \<in> set (on_putStream_event ev) \<Longrightarrow> e = StreamPipeFrom"
  by (cases ev) auto

lemma createReadStreamCmd_session:
  assumes "Do e \<in> set (concat (createReadStreamCmd path True tr))"
  shows "e \<noteq> ConnEnd \<and> e \<noteq> ConnDestroy"
  using assms
  by (auto simp: createReadStreamCmd_def split: cb.splits option.splits
      dest: on_readStream_event_session)

lemma createWriteStreamCmd_session:
  assumes "Do e \<in> set (concat (createWriteStreamCmd path True tr))"
  shows "e \<noteq> ConnEnd \<and> e \<noteq> ConnDestroy"
  using assms
  by (auto simp: createWriteStreamCmd_def on_writeStream_event_session
      split: cb.splits option.splits)

lemma getStreamCmd_effects:
  assumes "Do e \<in> set (concat (getStreamCmd path writable tr))"
  shows "e \<noteq> ConnEnd \<and> e \<noteq> ConnDestroy"
  using assms
  by (auto simp: getStreamCmd_def getStream_callback_def on_getStream_event_effects
      split: cb.splits option.splits if_splits)

lemma putStreamCmd_effects:
  assumes "Do e \<in> set (concat (putStreamCmd path readable tr))"
  shows "e \<noteq> ConnEnd \<and> e \<noteq> ConnDestroy"
  using assms
  by (auto simp: putStreamCmd_def putStream_callback_def
      split: cb.splits option.splits if_splits dest: on_putStream_event_effects)

lemma execCmd_effects:
  assumes "Body e \<in> set (trace (execCmd command session persist sigs tr))"
  shows "e = ConnExec command"
  using Body_cmd [OF assms [unfolded execCmd_def]]
  by (auto simp: execCmd_callbacks_def on_exit_def split: cb.splits if_splits)

lemma closing_cases:
  "closing x \<longleftrightarrow> x = Core ConnEnd \<or> x = Core ConnDestroy \<or> x = Body ConnEnd \<or> x = Body ConnDestroy"
  by (cases x rule: closing.cases) simp_all

lemma not_closing_sftpCmd:
  assumes "\<And>e. Do e \<in> set (concat callbacks) \<Longrightarrow> e \<noteq> ConnEnd \<and> e \<noteq> ConnDestroy"
  shows "\<not> list_ex closing (trace (sftpCmd callbacks True persist sigs))"
proof
  assume "list_ex closing (trace (sftpCmd callbacks True persist sigs))"
  then obtain x where x: "x \<in> set (trace (sftpCmd callbacks True persist sigs))" "closing x"
    by (auto simp: list_ex_iff)
  from x(2) consider e where "x = Core e" | e where "x = Body e" "e = ConnEnd \<or> e = ConnDestroy"
    by (auto simp: closing_cases)
  then show False
  proof cases
    case 1
    with x(1) show False
      using Core_cmd_session by (fastforce simp: sftpCmd_def)
  next
    case 2
    with x(1) Body_sftpCmd [of e callbacks True persist sigs] assms [of e]
    show False by auto
  qed
qed

text \<open>
  Claim C3. For every operation invoked with a caller-supplied session, whatever the
  events and whether it resolves or rejects: \<^verbatim>\<open>cmd\<close> never calls \<^verbatim>\<open>conn.end\<close> or
  \<^verbatim>\<open>conn.destroy\<close>, for any operation body; and the operations themselves, including the
  two stream constructors whose listeners close a connection that \<^verbatim>\<open>cmd\<close> created, make
  no closing call on a session either.
\<close>

theorem session_never_closed:
  "Core ConnEnd \<notin> set (trace (cmd cmdCB True persist evs)) \<and>
   Core ConnDestroy \<notin> set (trace (cmd cmdCB True persist evs)) \<and>
   \<not> list_ex closing (trace (createReadStream path True sigs tr)) \<and>
   \<not> list_ex closing (trace (createWriteStream path True sigs tr)) \<and>
   \<not> list_ex closing (trace (getBuffer path True sigs tr)) \<and>
   \<not> list_ex closing (trace (putBuffer buffer path True sigs tr)) \<and>
   \<not> list_ex closing (trace (getStream path writable True sigs tr)) \<and>
   \<not> list_ex closing (trace (putStream path readable True sigs tr)) \<and>
   \<not> list_ex closing (trace (execCmd command True persist sigs tr))"
proof (intro conjI)
  show "Core ConnEnd \<notin> set (trace (cmd cmdCB True persist evs))"
    "Core ConnDestroy \<notin> set (trace (cmd cmdCB True persist evs))"
    using Core_cmd_session by blast+
  show "\<not> list_ex closing (trace (createReadStream path True sigs tr))"
    unfolding createReadStream_def
    by (rule not_closing_sftpCmd) (rule createReadStreamCmd_session)
  show "\<not> list_ex closing (trace (createWriteStream path True sigs tr))"
    unfolding createWriteStream_def
    by (rule not_closing_sftpCmd) (rule createWriteStreamCmd_session)
  show "\<not> list_ex closing (trace (getBuffer path True sigs tr))"
    unfolding getBuffer_def
    by (rule not_closing_sftpCmd) (rule getBufferCmd_session)
  show "\<not> list_ex closing (trace (putBuffer buffer path True sigs tr))"
    unfolding putBuffer_def
    by (rule not_closing_sftpCmd) (rule putBufferCmd_session)
  show "\<not> list_ex closing (trace (getStream path writable True sigs tr))"
    unfolding getStream_def
    by (rule not_closing_sftpCmd) (rule getStreamCmd_effects)
  show "\<not> list_ex closing (trace (putStream path readable True sigs tr))"
    unfolding putStream_def
    by (rule not_closing_sftpCmd) (rule putStreamCmd_effects)
  show "\<not> list_ex closing (trace (execCmd command True persist sigs tr))"
  proof
    assume "list_ex closing (trace (execCmd command True persist sigs tr))"
    then obtain x where x: "x \<in> set (trace (execCmd command True persist sigs tr))" "closing x"
      by (auto simp: list_ex_iff)
    from x(2) consider e where "x = Core e" | e where "x = Body e" "e = ConnEnd \<or> e = ConnDestroy"
      by (auto simp: closing_cases)
    then show False
    proof cases
      case 1
      with x(1) show False
        using Core_cmd_session by (fastforce simp: execCmd_def)
    next
      case 2
      with x(1) execCmd_effects [of e command True persist sigs tr]
      show False by auto
    qed
  qed
qed

lemmas sftp_eval = sftpCmd_def cmd_def executor_def step_def flush_def invoke_def resolved_def
  rejected_def handleConn_def silent_def

theorem session_never_closed_witness:
  "trace (createReadStream ''/f'' True [Ended]
      (silent\<lparr>sftp_cb := Ok (), stat_cb := Ok 4, stream_events := [SReadable, SClose]\<rparr>)) =
     [Body ConnSftp, Body (SftpStat ''/f''), Body (SftpCreateReadStream ''/f'' 0 3),
      Invoked (Resolve (ReadStream ''/f'')), InnerSettled (Resolve (ReadStream ''/f'')),
      Body StreamClose, OuterSettled (Resolve (ReadStream ''/f''))] \<and>
   \<not> list_ex closing (trace (createReadStream ''/f'' True [Ended]
      (silent\<lparr>sftp_cb := Ok (), stat_cb := Ok 4, stream_events := [SReadable, SClose]\<rparr>))) \<and>
   Core ConnEnd \<notin> set (trace (cmd [Inv (Reject (Error ''failed''))] True False [Sig Ended]))"
  using session_never_closed [of "[Inv (Reject (Error ''failed''))]" False "[Sig Ended]" "''/f''"
      "[Ended]"
      "silent\<lparr>sftp_cb := Ok (), stat_cb := Ok 4, stream_events := [SReadable, SClose]\<rparr>"]
  by (simp add: createReadStream_def createReadStreamCmd_def end_position_def sftp_eval)

subsection \<open>\<^verbatim>\<open>getBuffer\<close> on an empty file\<close>

text \<open>
  Claim C9. For every remote file of size 0, \<^verbatim>\<open>getBuffer\<close> resolves the empty buffer in
  the callback of \<^verbatim>\<open>fstat\<close>: the body has opened the file and never calls \<^verbatim>\<open>sftp.close\<close>,
  for a session or a fresh connection and whatever signals precede, and on a fresh
  connection the only teardown is that of the connection.
\<close>

theorem getBuffer_empty_file_not_closed:
  assumes "sftp_cb tr = Ok ()" "open_cb tr = Ok h" "fstat_cb tr = Ok 0"
  shows "concat (getBufferCmd location tr) =
           [Do (SftpOpen location ''r''), Do (SftpFstat h), Inv (Resolve [])] \<and>
         (\<forall>h'. Body (SftpClose h') \<notin> set (trace (getBuffer location session sigs tr))) \<and>
         trace (getBuffer location False [Ready] tr) =
           [Core ConnConnect, Body ConnSftp, Body (SftpOpen location ''r''), Body (SftpFstat h),
            Invoked (Resolve []), InnerSettled (Resolve []), Core ConnEnd, Core ConnDestroy,
            OuterSettled (Resolve [])]"
proof (intro conjI allI)
  from assms show acts: "concat (getBufferCmd location tr) =
           [Do (SftpOpen location ''r''), Do (SftpFstat h), Inv (Resolve [])]"
    by (simp add: getBufferCmd_def on_fstat_def)
  show "Body (SftpClose h') \<notin> set (trace (getBuffer location session sigs tr))" for h'
    using Body_sftpCmd [of "SftpClose h'" "getBufferCmd location tr" session False sigs]
    by (auto simp: getBuffer_def acts simp del: set_concat)
  from assms show "trace (getBuffer location False [Ready] tr) =
           [Core ConnConnect, Body ConnSftp, Body (SftpOpen location ''r''), Body (SftpFstat h),
            Invoked (Resolve []), InnerSettled (Resolve []), Core ConnEnd, Core ConnDestroy,
            OuterSettled (Resolve [])]"
    by (simp add: getBuffer_def getBufferCmd_def on_fstat_def sftp_eval)
qed

theorem getBuffer_empty_file_not_closed_witness:
  "concat (getBufferCmd ''/empty'' (silent\<lparr>sftp_cb := Ok (), open_cb := Ok 5, fstat_cb := Ok 0\<rparr>)) =
     [Do (SftpOpen ''/empty'' ''r''), Do (SftpFstat 5), Inv (Resolve [])] \<and>
   Body (SftpClose 5) \<notin> set (trace (getBuffer ''/empty'' True []
     (silent\<lparr>sftp_cb := Ok (), open_cb := Ok 5, fstat_cb := Ok 0\<rparr>)))"
  using getBuffer_empty_file_not_closed [of
      "silent\<lparr>sftp_cb := Ok (), open_cb := Ok 5, fstat_cb := Ok 0\<rparr>" 5 "''/empty''" True "[]"]
  by simp

subsection \<open>\<^verbatim>\<open>getStream\<close> and \<^verbatim>\<open>putStream\<close>\<close>

text \<open>
  Claim C10. In \<^verbatim>\<open>getStream\<close> and \<^verbatim>\<open>putStream\<close> the validity of the supplied stream is
  tested before the error of the sub-channel open: whenever the callback of \<^verbatim>\<open>conn.sftp\<close>
  fires, with an error or without, and the stream is not writable (not readable), the
  only act of the body is to reject with \<^verbatim>\<open>Stream must be a writable stream\<close>
  (\<^verbatim>\<open>Stream must be a readable stream\<close>), and on an available connection that is the
  outcome of the promise.
\<close>

theorem stream_check_before_open_error:
  assumes "sftp_cb tr \<noteq> Silent"
  shows "getStreamCmd path False tr =
           [[Inv (Reject (Error ''Stream must be a writable stream''))]] \<and>
         putStreamCmd path False tr =
           [[Inv (Reject (Error ''Stream must be a readable stream''))]] \<and>
         (session \<or> sigs = [Ready] \<longrightarrow>
            outer (getStream path False session sigs tr) =
              Some (Reject (Error ''Stream must be a writable stream'')) \<and>
            outer (putStream path False session sigs tr) =
              Some (Reject (Error ''Stream must be a readable stream'')))"
proof (intro conjI impI)
  from assms show g: "getStreamCmd path False tr =
           [[Inv (Reject (Error ''Stream must be a writable stream''))]]"
    by (simp add: getStreamCmd_def getStream_callback_def split: cb.splits)
  from assms show p: "putStreamCmd path False tr =
           [[Inv (Reject (Error ''Stream must be a readable stream''))]]"
    by (simp add: putStreamCmd_def putStream_callback_def split: cb.splits)
  assume a: "session \<or> sigs = [Ready]"
  then show "outer (getStream path False session sigs tr) =
              Some (Reject (Error ''Stream must be a writable stream''))"
    by (simp only: getStream_def sftpCmd_def cmd_outer g) simp
  from a show "outer (putStream path False session sigs tr) =
              Some (Reject (Error ''Stream must be a readable stream''))"
    by (simp only: putStream_def sftpCmd_def cmd_outer p) simp
qed

theorem stream_check_before_open_error_witness:
  "sftp_cb (silent\<lparr>sftp_cb := Err (Error ''open failed'')\<rparr>) \<noteq> Silent \<and>
   outer (getStream ''/f'' False False [Ready] (silent\<lparr>sftp_cb := Err (Error ''open failed'')\<rparr>)) =
     Some (Reject (Error ''Stream must be a writable stream'')) \<and>
   outer (putStream ''/f'' False True [] (silent\<lparr>sftp_cb := Err (Error ''open failed'')\<rparr>)) =
     Some (Reject (Error ''Stream must be a readable stream''))"
proof -
  have h: "sftp_cb (silent\<lparr>sftp_cb := Err (Error ''open failed'')\<rparr>) \<noteq> Silent"
    by simp
  show ?thesis
    using h stream_check_before_open_error [OF h, of "''/f''" False "[Ready]"]
      stream_check_before_open_error [OF h, of "''/f''" True "[]"]
    by simp
qed

subsection \<open>Round trip of a buffer\<close>



subsection \<open>What the body does in a run\<close>

lemma body_acts_append: "body_acts (xs @ ys) = body_acts xs @ body_acts ys"
  by (induction xs rule: body_acts.induct) simp_all

lemma body_acts_Core: "body_acts (map Core es) = []"
  by (induction es) simp_all

lemma body_acts_invoke: "body_acts (trace (invoke c st)) = body_acts (trace st) @ [Inv c]"
  by (simp add: invoke_def body_acts_append split: option.splits)

lemma body_acts_run_callback:
  "body_acts (trace (run_callback acts st)) = body_acts (trace st) @ acts"
proof (induction acts arbitrary: st)
  case Nil
  then show ?case by simp
next
  case (Cons a as)
  then show ?case
    by (cases a) (simp_all add: body_acts_invoke body_acts_append)
qed

lemma body_acts_flush: "body_acts (trace (flush session persist st)) = body_acts (trace st)"
  by (simp add: flush_def body_acts_append body_acts_Core resolved_def rejected_def
      split: option.splits call.splits)

lemma body_acts_step_callback:
  "body_acts (trace (step cmdCB session persist st (Callback acts))) =
     body_acts (trace st) @ (if started st then acts else [])"
  by (simp add: step_def body_acts_flush body_acts_run_callback)

lemma started_step_callback:
  "started (step cmdCB session persist st (Callback acts)) = started st"
  by (simp add: step_def flush_started run_callback_started)

lemma foldl_callbacks_started:
  "started (foldl (step cmdCB session persist) st (map Callback cbs)) = started st"
  by (induction cbs arbitrary: st) (simp_all add: started_step_callback)

lemma foldl_callbacks_body_acts:
  "body_acts (trace (foldl (step cmdCB session persist) st (map Callback cbs))) =
     body_acts (trace st) @ (if started st then concat cbs else [])"
  by (induction cbs arbitrary: st)
     (simp_all add: body_acts_step_callback started_step_callback)

lemma foldl_session_signals_body_acts:
  "body_acts (trace (foldl (step cmdCB True persist) st (map Sig sigs))) = body_acts (trace st)"
  by (induction sigs arbitrary: st) (simp_all add: step_def body_acts_flush)

lemma cmd_split:
  "cmd cmdCB session persist (map Sig sigs @ map Callback cbs) =
     foldl (step cmdCB session persist) (cmd cmdCB session persist (map Sig sigs))
       (map Callback cbs)"
  by (simp add: cmd_def)

lemma cmd_body_acts_any:
  "body_acts (trace (cmd cmdCB session persist (map Sig sigs @ map Callback cbs))) =
     body_acts (trace (cmd cmdCB session persist (map Sig sigs))) @
     (if started (cmd cmdCB session persist (map Sig sigs)) then concat cbs else [])"
  by (simp only: cmd_split foldl_callbacks_body_acts)

lemma cmd_started_any:
  "started (cmd cmdCB session persist (map Sig sigs @ map Callback cbs)) =
     started (cmd cmdCB session persist (map Sig sigs))"
  by (simp only: cmd_split foldl_callbacks_started)

lemma cmd_signals_available:
  assumes "session \<or> sigs = [Ready]"
  shows "started (cmd cmdCB session persist (map Sig sigs))"
    and "body_acts (trace (cmd cmdCB session persist (map Sig sigs))) = cmdCB"
proof -
  have "started (cmd cmdCB session persist (map Sig sigs)) \<and>
        body_acts (trace (cmd cmdCB session persist (map Sig sigs))) = cmdCB"
  proof (cases session)
    case True
    have "started (foldl (step cmdCB True persist) (executor cmdCB True persist) (map Sig sigs))"
      using foldl_session_signals [OF executor_session(1), where cmdCB = cmdCB
          and persist = persist and sigs = sigs]
      by simp
    moreover have "body_acts (trace (executor cmdCB True persist)) = cmdCB"
      by (simp add: executor_def body_acts_flush body_acts_run_callback)
    ultimately show ?thesis
      using True by (simp add: cmd_def foldl_session_signals_body_acts)
  next
    case False
    with assms have "sigs = [Ready]" by simp
    with False show ?thesis
      by (simp add: cmd_def executor_fresh step_def flush_started run_callback_started
          body_acts_flush body_acts_run_callback)
  qed
  then show "started (cmd cmdCB session persist (map Sig sigs))"
    and "body_acts (trace (cmd cmdCB session persist (map Sig sigs))) = cmdCB"
    by simp_all
qed

lemma cmd_body_acts:
  assumes "session \<or> sigs = [Ready]"
  shows "body_acts (trace (cmd cmdCB session persist (map Sig sigs @ map Callback cbs))) =
           cmdCB @ concat cbs"
  by (simp add: cmd_body_acts_any cmd_signals_available [OF assms])

lemma sftpCmd_body_acts:
  assumes "session \<or> sigs = [Ready]"
  shows "body_acts (trace (sftpCmd callbacks session persist sigs)) = Do ConnSftp # concat callbacks"
  by (simp add: sftpCmd_def cmd_body_acts [OF assms])

lemma sftpCmd_outer:
  assumes "session \<or> sigs = [Ready]"
  shows "outer (sftpCmd callbacks session persist sigs) = first_call (calls_of (concat callbacks))"
  by (simp add: sftpCmd_def cmd_outer [OF assms])

subsection \<open>\<^verbatim>\<open>getBuffer\<close>: where the next read starts\<close>




subsection \<open>\<^verbatim>\<open>putBuffer\<close>\<close>

lemma writes_append: "writes (xs @ ys) = writes xs @ writes ys"
  by (induction xs rule: writes.induct) simp_all

lemma writes_body_acts_empty:
  "(\<And>h b offset len pos. Body (SftpWrite h b offset len pos) \<notin> set os) \<Longrightarrow>
   writes (body_acts os) = []"
proof (induction os rule: body_acts.induct)
  case 1
  then show ?case by simp
next
  case (2 e os)
  then have rest: "writes (body_acts os) = []" by simp
  have "\<not> (\<exists>h b offset len pos. e = SftpWrite h b offset len pos)"
    using "2.prems" by fastforce
  then have "writes (Do e # body_acts os) = writes (body_acts os)"
    by (cases e) auto
  with rest show ?case by simp
qed simp_all

lemma signals_only_writes:
  "writes (body_acts (trace (cmd [Do ConnSftp] session persist (map Sig sigs)))) = []"
proof (rule writes_body_acts_empty)
  fix h b offset len pos
  show "Body (SftpWrite h b offset len pos) \<notin>
      set (trace (cmd [Do ConnSftp] session persist (map Sig sigs)))"
    using Body_cmd [of "SftpWrite h b offset len pos" "[Do ConnSftp]" session persist
        "map Sig sigs"]
    by auto
qed

lemma putBufferCmd_writes:
  "writes (concat (putBufferCmd buffer location tr)) =
     (case (sftp_cb tr, open_cb tr) of
        (Ok _, Ok h) \<Rightarrow> [SftpWrite h buffer 0 (length buffer) 0]
      | _ \<Rightarrow> [])"
  by (simp add: putBufferCmd_def split: cb.splits)

text \<open>
  Claim C8. For every buffer and remote path: whatever the transport answers and whatever
  signals the connection emits, a run of \<^verbatim>\<open>putBuffer\<close> issues at most one \<^verbatim>\<open>sftp.write\<close>,
  and that one covers the whole buffer (buffer offset 0, length \<^verbatim>\<open>buffer.length\<close>, file
  position 0); when every callback succeeds the run opens the path for write, writes
  once, closes the handle and resolves \<^verbatim>\<open>true\<close>, and nothing else is done on the
  sub-channel.
\<close>

theorem putBuffer_single_write:
  "writes (concat (putBufferCmd buffer location tr)) =
     (case (sftp_cb tr, open_cb tr) of
        (Ok _, Ok h) \<Rightarrow> [SftpWrite h buffer 0 (length buffer) 0]
      | _ \<Rightarrow> []) \<and>
   writes (body_acts (trace (putBuffer buffer location session sigs tr))) =
     (if started (putBuffer buffer location session sigs tr)
      then (case (sftp_cb tr, open_cb tr) of
              (Ok _, Ok h) \<Rightarrow> [SftpWrite h buffer 0 (length buffer) 0]
            | _ \<Rightarrow> [])
      else []) \<and>
   (sftp_cb tr = Ok () \<and> open_cb tr = Ok h \<and> write_cb tr = Ok () \<and> close_cb tr = Ok () \<longrightarrow>
      concat (putBufferCmd buffer location tr) =
        [Do (SftpOpen location ''w''), Do (SftpWrite h buffer 0 (length buffer) 0),
         Do (SftpClose h), Inv (Resolve True)] \<and>
      trace (putBuffer buffer location False [Ready] tr) =
        [Core ConnConnect, Body ConnSftp, Body (SftpOpen location ''w''),
         Body (SftpWrite h buffer 0 (length buffer) 0), Body (SftpClose h),
         Invoked (Resolve True), InnerSettled (Resolve True), Core ConnEnd, Core ConnDestroy,
         OuterSettled (Resolve True)] \<and>
      (session \<or> sigs = [Ready] \<longrightarrow>
         body_acts (trace (putBuffer buffer location session sigs tr)) =
           [Do ConnSftp, Do (SftpOpen location ''w''),
            Do (SftpWrite h buffer 0 (length buffer) 0), Do (SftpClose h),
            Inv (Resolve True)] \<and>
         outer (putBuffer buffer location session sigs tr) = Some (Resolve True)))"
proof (intro conjI impI)
  show "writes (concat (putBufferCmd buffer location tr)) =
     (case (sftp_cb tr, open_cb tr) of
        (Ok _, Ok h) \<Rightarrow> [SftpWrite h buffer 0 (length buffer) 0]
      | _ \<Rightarrow> [])"
    by (rule putBufferCmd_writes)
  show "writes (body_acts (trace (putBuffer buffer location session sigs tr))) =
     (if started (putBuffer buffer location session sigs tr)
      then (case (sftp_cb tr, open_cb tr) of
              (Ok _, Ok h) \<Rightarrow> [SftpWrite h buffer 0 (length buffer) 0]
            | _ \<Rightarrow> [])
      else [])"
    by (simp add: putBuffer_def sftpCmd_def cmd_body_acts_any cmd_started_any writes_append
        signals_only_writes putBufferCmd_writes)
next
  assume ok: "sftp_cb tr = Ok () \<and> open_cb tr = Ok h \<and> write_cb tr = Ok () \<and> close_cb tr = Ok ()"
  then show acts: "concat (putBufferCmd buffer location tr) =
        [Do (SftpOpen location ''w''), Do (SftpWrite h buffer 0 (length buffer) 0),
         Do (SftpClose h), Inv (Resolve True)]"
    by (simp add: putBufferCmd_def)
  from ok show "trace (putBuffer buffer location False [Ready] tr) =
        [Core ConnConnect, Body ConnSftp, Body (SftpOpen location ''w''),
         Body (SftpWrite h buffer 0 (length buffer) 0), Body (SftpClose h),
         Invoked (Resolve True), InnerSettled (Resolve True), Core ConnEnd, Core ConnDestroy,
         OuterSettled (Resolve True)]"
    by (simp add: putBuffer_def putBufferCmd_def sftp_eval)
  assume av: "session \<or> sigs = [Ready]"
  show "body_acts (trace (putBuffer buffer location session sigs tr)) =
           [Do ConnSftp, Do (SftpOpen location ''w''),
            Do (SftpWrite h buffer 0 (length buffer) 0), Do (SftpClose h),
            Inv (Resolve True)]"
    by (simp add: putBuffer_def sftpCmd_body_acts [OF av] acts)
  show "outer (putBuffer buffer location session sigs tr) = Some (Resolve True)"
    by (simp add: putBuffer_def sftpCmd_outer [OF av] acts)
qed

theorem putBuffer_single_write_witness:
  "trace (putBuffer [1, 2, 3] ''/f'' False [Ready]
     (silent\<lparr>sftp_cb := Ok (), open_cb := Ok 4, write_cb := Ok (), close_cb := Ok ()\<rparr>)) =
     [Core ConnConnect, Body ConnSftp, Body (SftpOpen ''/f'' ''w''),
      Body (SftpWrite 4 [1, 2, 3] 0 3 0), Body (SftpClose 4),
      Invoked (Resolve True), InnerSettled (Resolve True), Core ConnEnd, Core ConnDestroy,
      OuterSettled (Resolve True)] \<and>
   outer (putBuffer [1, 2, 3] ''/f'' False [Ready]
     (silent\<lparr>sftp_cb := Ok (), open_cb := Ok 4, write_cb := Ok (), close_cb := Ok ()\<rparr>)) =
     Some (Resolve True)"
  using putBuffer_single_write [of "[1, 2, 3]" "''/f''"
      "silent\<lparr>sftp_cb := Ok (), open_cb := Ok 4, write_cb := Ok (), close_cb := Ok ()\<rparr>"
      False "[Ready]" 4]
  by simp

subsection \<open>Round trip of a buffer: reading back\<close>






end
